theory Spec2Isabelle
  imports Main "HOL-Library.Sublist"
begin

section \<open>Strings and the path functions of \<^verbatim>\<open>os.path\<close>\<close>

text \<open>
  A filename is a Python \<^verbatim>\<open>str\<close>; it is modelled as a \<^typ>\<open>string\<close> whose characters are
  the code points below 256. The functions of \<^verbatim>\<open>os.path\<close> (POSIX flavour) and of \<^verbatim>\<open>re\<close> that
  \<^verbatim>\<open>file_mapper.py\<close> calls are written out as the standard library computes them.
\<close>

text \<open>\<^verbatim>\<open>str.rfind\<close> for a one-character needle: the highest index of \<open>c\<close>, or \<open>-1\<close>.\<close>

primrec rfind :: "char \<Rightarrow> string \<Rightarrow> int" where
  "rfind c [] = - 1"
| "rfind c (x # xs) =
     (let r = rfind c xs in if 0 \<le> r then r + 1 else if x = c then 0 else - 1)"

text \<open>
  The loop of \<^verbatim>\<open>genericpath._splitext\<close> that skips the leading dots of the last path
  component: \<^verbatim>\<open>while filenameIndex < dotIndex: if p[filenameIndex:filenameIndex+1] != extsep:
  return p[:dotIndex], p[dotIndex:]; filenameIndex += 1\<close>, falling through to
  \<^verbatim>\<open>return p, p[:0]\<close>.
\<close>

function skip_leading_dots :: "string \<Rightarrow> int \<Rightarrow> int \<Rightarrow> string \<times> string" where
  "skip_leading_dots p filenameIndex dotIndex =
     (if filenameIndex < dotIndex then
        (if take 1 (drop (nat filenameIndex) p) \<noteq> ''.''
         then (take (nat dotIndex) p, drop (nat dotIndex) p)
         else skip_leading_dots p (filenameIndex + 1) dotIndex)
      else (p, []))"
  by pat_completeness auto
termination
  by (relation "measure (\<lambda>(p, filenameIndex, dotIndex). nat (dotIndex - filenameIndex))") auto

declare skip_leading_dots.simps [simp del]

definition splitext :: "string \<Rightarrow> string \<times> string" where
  "splitext p =
     (let sepIndex = rfind CHR ''/'' p;
          dotIndex = rfind CHR ''.'' p
      in if dotIndex > sepIndex then skip_leading_dots p (sepIndex + 1) dotIndex
         else (p, []))"

text \<open>\<^verbatim>\<open>posixpath.basename\<close>: \<^verbatim>\<open>i = p.rfind('/') + 1; return p[i:]\<close>.\<close>

definition basename :: "string \<Rightarrow> string" where
  "basename p = drop (nat (rfind CHR ''/'' p + 1)) p"

text \<open>\<^verbatim>\<open>str.rstrip\<close> for a one-character set.\<close>

definition rstrip :: "char \<Rightarrow> string \<Rightarrow> string" where
  "rstrip c s = rev (dropWhile (\<lambda>x. x = c) (rev s))"

text \<open>
  \<^verbatim>\<open>posixpath.dirname\<close>: \<^verbatim>\<open>i = p.rfind('/') + 1; head = p[:i];
  if head and head != '/' * len(head): head = head.rstrip('/'); return head\<close>.
\<close>

definition dirname :: "string \<Rightarrow> string" where
  "dirname p =
     (let i = rfind CHR ''/'' p + 1;
          head = take (nat i) p
      in if head \<noteq> [] \<and> head \<noteq> replicate (length head) CHR ''/''
         then rstrip CHR ''/'' head else head)"

section \<open>The regular expression of the subtitle ranker\<close>

text \<open>
  \<^verbatim>\<open>\w\<close> of a \<^verbatim>\<open>str\<close> pattern: the ASCII letters, digits and the underscore, and the
  alphanumeric code points of the range 128 to 255.
\<close>

definition is_word_char :: "char \<Rightarrow> bool" where
  "is_word_char c =
     (let n = (of_char c :: nat) in
        (48 \<le> n \<and> n \<le> 57) \<or> (65 \<le> n \<and> n \<le> 90) \<or> n = 95 \<or> (97 \<le> n \<and> n \<le> 122)
        \<or> n = 170 \<or> n = 178 \<or> n = 179 \<or> n = 181 \<or> n = 185 \<or> n = 186
        \<or> n = 188 \<or> n = 189 \<or> n = 190
        \<or> (192 \<le> n \<and> n \<le> 214) \<or> (216 \<le> n \<and> n \<le> 246) \<or> 248 \<le> n)"

text \<open>
  \<^verbatim>\<open>re.IGNORECASE\<close> against a pattern of ASCII letters: below code point 256 a pattern
  letter matches exactly its own lower-case and upper-case form.
\<close>

definition lower_char :: "char \<Rightarrow> char" where
  "lower_char c =
     (let n = (of_char c :: nat) in if 65 \<le> n \<and> n \<le> 90 then char_of (n + 32) else c)"

definition char_eq_ignoring_case :: "char \<Rightarrow> char \<Rightarrow> bool" where
  "char_eq_ignoring_case a b = (lower_char a = lower_char b)"

text \<open>
  \<^verbatim>\<open>\b\<close> at position \<open>i\<close> of \<open>line\<close>: exactly one of the characters before and at \<open>i\<close>
  is a word character, where the outside of the string counts as a non-word character.
\<close>

definition word_at :: "string \<Rightarrow> int \<Rightarrow> bool" where
  "word_at line i = (0 \<le> i \<and> i < int (length line) \<and> is_word_char (line ! nat i))"

definition word_boundary :: "string \<Rightarrow> nat \<Rightarrow> bool" where
  "word_boundary line i = (word_at line (int i - 1) \<noteq> word_at line (int i))"

text \<open>The literal \<open>w\<close> matches \<open>line\<close> at position 0, ignoring case.\<close>

definition literal_at_start :: "string \<Rightarrow> string \<Rightarrow> bool" where
  "literal_at_start w line =
     (length w \<le> length line \<and> list_all2 char_eq_ignoring_case w (take (length w) line))"

text \<open>
  \<^verbatim>\<open>re.compile(r'\b(' + '|'.join(words) + r')\b', re.IGNORECASE).match(line) is not None\<close>.
  \<^verbatim>\<open>match\<close> tries the pattern at position 0 only; by backtracking over the alternatives
  it succeeds exactly when some alternative matches there between two word boundaries. The
  words are taken literally (those of the callers are plain letters); the join of no word
  at all is the empty pattern, a single alternative that matches the empty string.
\<close>

definition contains_any_word_ignoring_case :: "string \<Rightarrow> string list \<Rightarrow> bool" where
  "contains_any_word_ignoring_case line words =
     (let alternatives = (if words = [] then [[]] else words)
      in list_ex (\<lambda>w. word_boundary line 0 \<and> literal_at_start w line
                       \<and> word_boundary line (length w)) alternatives)"

section \<open>The extension classifier\<close>

definition parse_extension :: "string \<Rightarrow> string" where
  "parse_extension filename = drop 1 (snd (splitext filename))"

definition is_video :: "string \<Rightarrow> bool" where
  "is_video filename = (parse_extension filename \<in> set [''avi'', ''mkv'', ''mp4''])"

definition is_subtitle :: "string \<Rightarrow> bool" where
  "is_subtitle filename =
     (parse_extension filename \<in> set [''sub'', ''idx'', ''srt'', ''smi'', ''ssa'', ''ass'', ''vtt''])"

section \<open>The file mapper\<close>

text \<open>
  An entry of \<^verbatim>\<open>torrent.files()\<close> (a dict \<^verbatim>\<open>{'name': ..., 'size': ..., ...}\<close>; the mapper
  reads these two keys only), and a torrent: its \<^verbatim>\<open>downloadDir\<close> and the values of
  \<^verbatim>\<open>files()\<close> in the order the dict yields them.
\<close>

record download_file =
  file_name :: string
  file_size :: int

record torrent =
  downloadDir :: string
  files :: "download_file list"

text \<open>
  A mapping rule, the dict \<^verbatim>\<open>{'download_dir': ..., 'filename': ..., 'dest': ...}\<close>. The key
  \<^verbatim>\<open>'rank'\<close> is absent until \<^verbatim>\<open>sidecar_best_non_vobsub\<close> stores it.
\<close>

record rule =
  download_dir :: string
  filename :: string
  dest :: string
  rank :: "int option"

text \<open>
  \<^verbatim>\<open>sorted(xs, key=k, reverse=True)\<close>: a stable sort in descending order of the key, which
  keeps the original order of the elements with equal keys (the list is reversed, sorted
  stably in ascending order, and reversed again).
\<close>

definition sorted_reverse :: "('a \<Rightarrow> int) \<Rightarrow> 'a list \<Rightarrow> 'a list" where
  "sorted_reverse k xs = rev (sort_key k (rev xs))"

definition forward_main_videos :: "torrent \<Rightarrow> rule list" where
  "forward_main_videos t =
     (let videos = filter (\<lambda>f. is_video (file_name f)) (files t);
          videos_by_size = sorted_reverse file_size videos
      in if length videos_by_size > 0 then
           (let main_video = hd videos_by_size;
                main_filename = file_name main_video
            in [\<lparr>download_dir = downloadDir t, filename = main_filename,
                 dest = main_filename, rank = None\<rparr>])
         else [])"

primrec forward_subtitles_loop :: "string \<Rightarrow> download_file list \<Rightarrow> rule list \<Rightarrow> rule list" where
  "forward_subtitles_loop dd [] mappings = mappings"
| "forward_subtitles_loop dd (f # fs) mappings =
     (let fname = file_name f in
        if is_subtitle fname
        then forward_subtitles_loop dd fs
               (mappings @ [\<lparr>download_dir = dd, filename = fname, dest = fname, rank = None\<rparr>])
        else forward_subtitles_loop dd fs mappings)"

definition forward_subtitles :: "torrent \<Rightarrow> rule list" where
  "forward_subtitles t = forward_subtitles_loop (downloadDir t) (files t) []"

primrec has_sidecar :: "rule list \<Rightarrow> string \<Rightarrow> bool" where
  "has_sidecar [] video_dir = False"
| "has_sidecar (sub # subs) video_dir =
     (if dirname (filename sub) = video_dir then True else has_sidecar subs video_dir)"

definition is_english_subtitle :: "string \<Rightarrow> bool" where
  "is_english_subtitle name =
     contains_any_word_ignoring_case name [''english'', ''eng'', ''en'']"

definition is_sdh_subtitle :: "string \<Rightarrow> bool" where
  "is_sdh_subtitle name = contains_any_word_ignoring_case name [''sdh'']"

definition rank_subtitle :: "rule \<Rightarrow> int" where
  "rank_subtitle subtitle =
     (let name = basename (filename subtitle) in
        if is_english_subtitle name then
          (if is_sdh_subtitle name then 90 else 100)
        else 80)"

text \<open>
  \<^verbatim>\<open>sidecar_best_non_vobsub\<close> stores the rank in every subtitle dict; \<^verbatim>\<open>list(subtitles)\<close>
  copies the list, not the dicts, so the caller's subtitles carry the rank afterwards. The
  model returns them next to the result. A missing key is never read:
  \<^verbatim>\<open>s['rank']\<close> is read after the loop that sets it.
\<close>

definition the_rank :: "rule \<Rightarrow> int" where
  "the_rank s = (case rank s of Some r \<Rightarrow> r | None \<Rightarrow> 0)"

definition sidecar_best_non_vobsub :: "rule list \<Rightarrow> string \<Rightarrow> rule list \<times> rule list" where
  "sidecar_best_non_vobsub subtitles video_dir =
     (let subs = map (\<lambda>sub. sub\<lparr>rank := Some (rank_subtitle sub)\<rparr>) subtitles;
          ranked_subs = sorted_reverse the_rank subs
      in if length ranked_subs \<le> 0 then (subs, [])
         else
           (let best_sub = hd ranked_subs;
                fname = filename best_sub;
                bname = basename fname
            in (subs, [\<lparr>download_dir = download_dir best_sub, filename = fname,
                        dest = video_dir @ ''/'' @ bname, rank = None\<rparr>])))"

definition has_vobsub :: "rule list \<Rightarrow> bool" where
  "has_vobsub subtitles =
     (let (has_idx, has_sub) =
        fold (\<lambda>sub (has_idx, has_sub).
                let ext = drop 1 (snd (splitext (filename sub)))
                in (if ext = ''idx'' then True else has_idx,
                    if ext = ''sub'' then True else has_sub))
             subtitles (False, False)
      in has_idx \<and> has_sub)"

primrec sidecar_vobsub_loop :: "rule list \<Rightarrow> string \<Rightarrow> rule list \<Rightarrow> rule list" where
  "sidecar_vobsub_loop [] video_dir mappings = mappings"
| "sidecar_vobsub_loop (sub # subs) video_dir mappings =
     (let fname = filename sub;
          ext = drop 1 (snd (splitext fname));
          bname = basename fname
      in if ext \<in> set [''idx'', ''sub'']
         then sidecar_vobsub_loop subs video_dir
                (mappings @ [\<lparr>download_dir = download_dir sub, filename = fname,
                              dest = video_dir @ ''/'' @ bname, rank = None\<rparr>])
         else sidecar_vobsub_loop subs video_dir mappings)"

definition sidecar_vobsub :: "rule list \<Rightarrow> string \<Rightarrow> rule list" where
  "sidecar_vobsub subtitles video_dir = sidecar_vobsub_loop subtitles video_dir []"

text \<open>
  \<^verbatim>\<open>sidecar_subtitle\<close> returns the sidecar rules; the first component is the caller's
  subtitle list as the call leaves it (changed only on the ranking path).
\<close>

definition sidecar_subtitle :: "rule list \<Rightarrow> rule list \<Rightarrow> rule list \<times> rule list" where
  "sidecar_subtitle main_video subtitles =
     (if length main_video \<le> 0 then (subtitles, [])
      else
        (let video_dir = dirname (filename (hd main_video)) in
           if has_sidecar subtitles video_dir then (subtitles, [])
           else if has_vobsub subtitles then (subtitles, sidecar_vobsub subtitles video_dir)
           else sidecar_best_non_vobsub subtitles video_dir))"

definition move_to_dir :: "string \<Rightarrow> rule list \<Rightarrow> rule list" where
  "move_to_dir folder fs =
     map (\<lambda>f. \<lparr>download_dir = download_dir f, filename = filename f,
               dest = folder @ dest f, rank = None\<rparr>) fs"

definition map_single_video_download_with_subs :: "torrent \<Rightarrow> string \<Rightarrow> rule list" where
  "map_single_video_download_with_subs t dest_dir =
     (let main_video = forward_main_videos t;
          subtitles0 = forward_subtitles t;
          (subtitles, sidecar_subs) = sidecar_subtitle main_video subtitles0;
          fs = main_video @ subtitles @ sidecar_subs
      in move_to_dir dest_dir fs)"

section \<open>The directory pruner\<close>

text \<open>
  Modelled from the spec: the filesystem that \<^verbatim>\<open>pruneEmptyDirectories\<close> works on. The
  pruner is not among the sources (only tests of its callers are), so its data is taken
  from the contract: a path is the list of its components from the top of the filesystem
  (the top itself is \<open>[]\<close>), and a filesystem is the set of its files and the set of its
  directories.
\<close>

type_synonym path = "string list"

record filesystem =
  fs_files :: "path set"
  fs_dirs :: "path set"

text \<open>Modelled from the spec: the parent directory of a path ("its parent").\<close>

definition parent :: "path \<Rightarrow> path" where
  "parent p = butlast p"

text \<open>
  Modelled from the spec: "the directory is empty (no files, no subdirectories)": no file
  and no directory of the filesystem has \<open>d\<close> as its parent.
\<close>

definition is_empty_dir :: "filesystem \<Rightarrow> path \<Rightarrow> bool" where
  "is_empty_dir fs d = (\<forall>p \<in> fs_files fs \<union> fs_dirs fs. p = [] \<or> parent p \<noteq> d)"

text \<open>
  Modelled from the spec: the walk of \<^verbatim>\<open>pruneEmptyDirectories\<close> from one directory: "walk
  upward from that directory toward root: at each level, if the directory is empty, delete
  it and continue to its parent; stop at the first non-empty directory or upon reaching
  root itself (root is never deleted, even if empty)"; "no error is raised if a directory
  is already gone (treat as success)", so the walk goes on from the parent of a directory
  that is not there. The top of the filesystem has no parent, and the walk ends there.
\<close>

function walk_up :: "path \<Rightarrow> filesystem \<Rightarrow> path \<Rightarrow> filesystem" where
  "walk_up root fs d =
     (if d = root \<or> d = [] then fs
      else if d \<notin> fs_dirs fs then walk_up root fs (parent d)
      else if is_empty_dir fs d
           then walk_up root (fs\<lparr>fs_dirs := fs_dirs fs - {d}\<rparr>) (parent d)
      else fs)"
  by pat_completeness auto
termination
  by (relation "measure (\<lambda>(root, fs, d). length d)") (auto simp: parent_def)

declare walk_up.simps [simp del]

text \<open>
  Modelled from the spec: \<^verbatim>\<open>pruneEmptyDirectories(root, deletedFiles)\<close>, which is not among
  the sources: "for every distinct parent directory of a deleted file", one walk, run on
  the filesystem as the caller's deletions left it.
\<close>

definition pruneEmptyDirectories :: "path \<Rightarrow> path list \<Rightarrow> filesystem \<Rightarrow> filesystem" where
  "pruneEmptyDirectories root deletedFiles fs =
     fold (\<lambda>d fs. walk_up root fs d) (remdups (map parent deletedFiles)) fs"

text \<open>
  Modelled from the spec: the filesystems of the contract, where a walk "upward from that
  directory toward root" passes through directories that exist: every directory other than
  the top lies in a directory of the filesystem.
\<close>

definition dirs_closed :: "filesystem \<Rightarrow> bool" where
  "dirs_closed fs = (\<forall>d \<in> fs_dirs fs. d \<noteq> [] \<longrightarrow> parent d \<in> fs_dirs fs)"

section \<open>Facts about the path functions\<close>

lemma rfind_bounds: "- 1 \<le> rfind c p \<and> rfind c p < int (length p)"
  by (induction p) (auto simp: Let_def)

lemma rfind_neg_iff: "rfind c p < 0 \<longleftrightarrow> c \<notin> set p"
  by (induction p) (auto simp: Let_def)

lemma rfind_notin: "c \<notin> set p \<Longrightarrow> rfind c p = - 1"
  by (induction p) (auto simp: Let_def)

lemma rfind_append_last: "c \<notin> set ys \<Longrightarrow> rfind c (xs @ c # ys) = int (length xs)"
  by (induction xs) (auto simp: Let_def rfind_notin)

lemma rfind_append_in: "c \<in> set ys \<Longrightarrow> rfind c (xs @ ys) = int (length xs) + rfind c ys"
proof (induction xs)
  case Nil
  then show ?case by simp
next
  case (Cons x xs)
  have "0 \<le> rfind c ys" using Cons.prems rfind_neg_iff [of c ys] by auto
  then show ?case using Cons by (auto simp: Let_def)
qed

lemma rfind_append_notin: "c \<notin> set ys \<Longrightarrow> rfind c (xs @ ys) = rfind c xs"
  by (induction xs) (auto simp: Let_def rfind_notin)

lemma rfind_split:
  assumes "c \<in> set p"
  shows "\<exists>xs ys. p = xs @ c # ys \<and> c \<notin> set ys \<and> rfind c p = int (length xs)"
proof -
  from assms obtain xs ys where "p = xs @ c # ys" "c \<notin> set ys"
    using split_list_last by fastforce
  then show ?thesis using rfind_append_last by blast
qed

lemma skip_leading_dots_eq:
  "0 \<le> i \<Longrightarrow> i \<le> d \<Longrightarrow> d \<le> int (length p) \<Longrightarrow>
   skip_leading_dots p i d =
     (if \<exists>c \<in> set (take (nat d - nat i) (drop (nat i) p)). c \<noteq> CHR ''.''
      then (take (nat d) p, drop (nat d) p) else (p, []))"
proof (induction p i d rule: skip_leading_dots.induct)
  case (1 p i d)
  show ?case
  proof (cases "i < d")
    case False
    with 1 show ?thesis by (subst skip_leading_dots.simps) simp
  next
    case True
    then have lt: "nat i < length p" using 1 by linarith
    have dr: "drop (nat i) p = p ! nat i # drop (nat (i + 1)) p"
      using lt 1 by (simp add: Cons_nth_drop_Suc nat_add_distrib)
    have tk: "take (nat d - nat i) (drop (nat i) p)
            = p ! nat i # take (nat d - nat (i + 1)) (drop (nat (i + 1)) p)"
    proof -
      have "nat d - nat i = Suc (nat d - nat (i + 1))" using True 1 by linarith
      then show ?thesis using dr by simp
    qed
    show ?thesis
    proof (cases "p ! nat i = CHR ''.''")
      case True
      then have "take 1 (drop (nat i) p) = ''.''" using dr by simp
      then have "skip_leading_dots p i d = skip_leading_dots p (i + 1) d"
        using \<open>i < d\<close> by (subst skip_leading_dots.simps) simp
      moreover have "skip_leading_dots p (i + 1) d =
         (if \<exists>c \<in> set (take (nat d - nat (i + 1)) (drop (nat (i + 1)) p)). c \<noteq> CHR ''.''
          then (take (nat d) p, drop (nat d) p) else (p, []))"
        using "1.IH" \<open>i < d\<close> \<open>take 1 (drop (nat i) p) = ''.''\<close> 1 by simp
      ultimately show ?thesis using tk True by simp
    next
      case False
      then have "take 1 (drop (nat i) p) \<noteq> ''.''" using dr by simp
      then have "skip_leading_dots p i d = (take (nat d) p, drop (nat d) p)"
        using \<open>i < d\<close> by (subst skip_leading_dots.simps) simp
      then show ?thesis using tk False by simp
    qed
  qed
qed

lemma basename_drop: "basename p = drop (nat (rfind CHR ''/'' p + 1)) p"
  by (simp add: basename_def)

lemma parse_extension_no_dot: "CHR ''.'' \<notin> set p \<Longrightarrow> parse_extension p = []"
  using rfind_bounds [of "CHR ''/''" p]
  by (simp add: parse_extension_def splitext_def rfind_notin Let_def)

lemma parse_extension_split:
  assumes nd: "CHR ''.'' \<notin> set ext"
  shows "parse_extension (stem @ ''.'' @ ext) =
     (if CHR ''/'' \<notin> set ext \<and> (\<exists>c \<in> set (basename stem). c \<noteq> CHR ''.'') then ext else [])"
proof -
  let ?p = "stem @ ''.'' @ ext"
  have dot: "rfind CHR ''.'' ?p = int (length stem)"
    using rfind_append_last [OF nd, of stem] by simp
  show ?thesis
  proof (cases "CHR ''/'' \<in> set ext")
    case True
    have "rfind CHR ''/'' ?p = int (length (stem @ ''.'')) + rfind CHR ''/'' ext"
      using rfind_append_in [OF True, of "stem @ ''.''"] by simp
    moreover have "0 \<le> rfind CHR ''/'' ext" using True rfind_neg_iff [of "CHR ''/''" ext] by auto
    ultimately have "\<not> rfind CHR ''.'' ?p > rfind CHR ''/'' ?p" using dot by simp
    then show ?thesis using True by (simp add: parse_extension_def splitext_def Let_def)
  next
    case False
    have sep: "rfind CHR ''/'' ?p = rfind CHR ''/'' stem"
    proof -
      have "CHR ''/'' \<notin> set (''.'' @ ext)" using False by simp
      then show ?thesis using rfind_append_notin [of "CHR ''/''" "''.'' @ ext" stem] by simp
    qed
    let ?s = "rfind CHR ''/'' stem"
    have b: "- 1 \<le> ?s \<and> ?s < int (length stem)" by (rule rfind_bounds)
    have sp: "splitext ?p = skip_leading_dots ?p (?s + 1) (int (length stem))"
      using b by (simp only: splitext_def Let_def sep dot) simp
    have "skip_leading_dots ?p (?s + 1) (int (length stem)) =
       (if \<exists>c \<in> set (take (nat (int (length stem)) - nat (?s + 1)) (drop (nat (?s + 1)) ?p)).
             c \<noteq> CHR ''.''
        then (take (nat (int (length stem))) ?p, drop (nat (int (length stem))) ?p)
        else (?p, []))"
      using b by (intro skip_leading_dots_eq) auto
    moreover have "take (nat (int (length stem)) - nat (?s + 1)) (drop (nat (?s + 1)) ?p)
        = basename stem"
      using b by (simp add: basename_def)
    ultimately show ?thesis using False sp
      by (simp add: parse_extension_def)
  qed
qed

section \<open>Facts about the ranker\<close>

lemma literal_at_start_Cons:
  "literal_at_start (x # w) line \<Longrightarrow> line \<noteq> [] \<and> lower_char (hd line) = lower_char x"
  by (cases line) (auto simp: literal_at_start_def char_eq_ignoring_case_def)

lemma lower_e: "lower_char CHR ''e'' = CHR ''e''" by (simp add: lower_char_def)
lemma lower_s: "lower_char CHR ''s'' = CHR ''s''" by (simp add: lower_char_def)

lemma english_starts_with_e: "is_english_subtitle name \<Longrightarrow> lower_char (hd name) = CHR ''e''"
  unfolding is_english_subtitle_def contains_any_word_ignoring_case_def
  using lower_e by (auto dest!: literal_at_start_Cons)

lemma sdh_starts_with_s: "is_sdh_subtitle name \<Longrightarrow> lower_char (hd name) = CHR ''s''"
  unfolding is_sdh_subtitle_def contains_any_word_ignoring_case_def
  using lower_s by (auto dest!: literal_at_start_Cons)

lemma not_english_and_sdh: "\<not> (is_english_subtitle name \<and> is_sdh_subtitle name)"
  using english_starts_with_e [of name] sdh_starts_with_s [of name] by auto

section \<open>Facts about the list traversals and the sort of the mapper\<close>

lemma forward_subtitles_loop_eq:
  "forward_subtitles_loop dd fs mappings =
     mappings @ map (\<lambda>f. \<lparr>download_dir = dd, filename = file_name f, dest = file_name f, rank = None\<rparr>)
                    (filter (\<lambda>f. is_subtitle (file_name f)) fs)"
  by (induction fs arbitrary: mappings) (auto simp: Let_def)

lemma forward_subtitles_eq:
  "forward_subtitles t =
     map (\<lambda>f. \<lparr>download_dir = downloadDir t, filename = file_name f, dest = file_name f, rank = None\<rparr>)
         (filter (\<lambda>f. is_subtitle (file_name f)) (files t))"
  by (simp add: forward_subtitles_def forward_subtitles_loop_eq)

lemma sidecar_vobsub_loop_eq:
  "sidecar_vobsub_loop subs video_dir mappings =
     mappings @ map (\<lambda>sub. \<lparr>download_dir = download_dir sub, filename = filename sub,
                             dest = video_dir @ ''/'' @ basename (filename sub), rank = None\<rparr>)
                    (filter (\<lambda>sub. parse_extension (filename sub) \<in> {''idx'', ''sub''}) subs)"
  by (induction subs arbitrary: mappings) (auto simp: Let_def parse_extension_def)

lemma sidecar_vobsub_eq:
  "sidecar_vobsub subs video_dir =
     map (\<lambda>sub. \<lparr>download_dir = download_dir sub, filename = filename sub,
                  dest = video_dir @ ''/'' @ basename (filename sub), rank = None\<rparr>)
         (filter (\<lambda>sub. parse_extension (filename sub) \<in> {''idx'', ''sub''}) subs)"
  by (simp add: sidecar_vobsub_def sidecar_vobsub_loop_eq)

lemma has_sidecar_iff:
  "has_sidecar subs video_dir \<longleftrightarrow> (\<exists>sub \<in> set subs. dirname (filename sub) = video_dir)"
  by (induction subs) auto

lemma has_vobsub_fold:
  "fold (\<lambda>sub (has_idx, has_sub).
           let ext = drop 1 (snd (splitext (filename sub)))
           in (if ext = ''idx'' then True else has_idx,
               if ext = ''sub'' then True else has_sub)) subs (a, b)
   = (a \<or> (\<exists>sub \<in> set subs. parse_extension (filename sub) = ''idx''),
      b \<or> (\<exists>sub \<in> set subs. parse_extension (filename sub) = ''sub''))"
  by (induction subs arbitrary: a b) (auto simp: Let_def parse_extension_def)

lemma has_vobsub_iff:
  "has_vobsub subs \<longleftrightarrow>
     (\<exists>sub \<in> set subs. parse_extension (filename sub) = ''idx'')
     \<and> (\<exists>sub \<in> set subs. parse_extension (filename sub) = ''sub'')"
  unfolding has_vobsub_def has_vobsub_fold by simp

text \<open>
  The model of \<^verbatim>\<open>sorted(..., reverse=True)\<close> is a stable sort in descending order: the keys
  of the result descend, and the elements of any one key keep their order.
\<close>

lemma sorted_reverse_descending: "sorted (rev (map k (sorted_reverse k xs)))"
  by (simp add: sorted_reverse_def rev_map)

lemma sorted_reverse_stable:
  "filter (\<lambda>y. k y = c) (sorted_reverse k xs) = filter (\<lambda>y. k y = c) xs"
  by (simp add: sorted_reverse_def rev_filter [symmetric] sort_key_stable)

lemma last_insort_key:
  "zs \<noteq> [] \<Longrightarrow> (\<forall>z \<in> set zs. k z \<le> k (last zs)) \<Longrightarrow>
   last (insort_key k y zs) = (if k y \<le> k (last zs) then last zs else y)"
proof (induction zs)
  case Nil
  then show ?case by simp
next
  case (Cons z zs)
  show ?case
  proof (cases "zs = []")
    case True
    then show ?thesis by auto
  next
    case False
    then have ne: "insort_key k y zs \<noteq> []" by (cases zs) auto
    have "\<forall>z' \<in> set zs. k z' \<le> k (last zs)" using Cons.prems False by auto
    then have IH: "last (insort_key k y zs) = (if k y \<le> k (last zs) then last zs else y)"
      using Cons.IH False by blast
    have "k z \<le> k (last zs)" using Cons.prems False by auto
    then show ?thesis using False ne IH by auto
  qed
qed

lemma last_sort_key:
  "ys \<noteq> [] \<Longrightarrow>
   \<exists>pre m post. ys = pre @ m # post \<and> last (sort_key k ys) = m
     \<and> (\<forall>x \<in> set pre. k x \<le> k m) \<and> (\<forall>x \<in> set post. k x < k m)"
proof (induction ys)
  case Nil
  then show ?case by simp
next
  case (Cons y ys)
  show ?case
  proof (cases "ys = []")
    case True
    then have "y # ys = [] @ y # []" "last (sort_key k (y # ys)) = y" by auto
    then show ?thesis by (metis empty_iff list.set(1))
  next
    case False
    then obtain pre m post where s: "ys = pre @ m # post" "last (sort_key k ys) = m"
      "\<forall>x \<in> set pre. k x \<le> k m" "\<forall>x \<in> set post. k x < k m"
      using Cons.IH by blast
    let ?zs = "sort_key k ys"
    have ne: "?zs \<noteq> []" using False by (metis length_sort length_0_conv)
    have mx: "\<forall>z \<in> set ?zs. k z \<le> k (last ?zs)" using s by (auto simp: less_imp_le)
    have l: "last (sort_key k (y # ys)) = (if k y \<le> k m then m else y)"
      using last_insort_key [OF ne mx, of y] s(2) by simp
    show ?thesis
    proof (cases "k y \<le> k m")
      case True
      have "y # ys = (y # pre) @ m # post" using s(1) by simp
      moreover have "\<forall>x \<in> set (y # pre). k x \<le> k m" using True s(3) by simp
      ultimately show ?thesis using l True s(4) by metis
    next
      case False
      have "y # ys = [] @ y # ys" by simp
      moreover have "\<forall>x \<in> set ys. k x < k y" using False s by (auto simp: less_imp_le)
      ultimately show ?thesis using l False by (metis empty_iff list.set(1))
    qed
  qed
qed

lemma hd_sorted_reverse:
  assumes "xs \<noteq> []"
  shows "\<exists>pre m post. xs = pre @ m # post \<and> hd (sorted_reverse k xs) = m
     \<and> (\<forall>x \<in> set pre. k x < k m) \<and> (\<forall>x \<in> set post. k x \<le> k m)"
proof -
  have "rev xs \<noteq> []" using assms by simp
  then obtain pre m post where s: "rev xs = pre @ m # post" "last (sort_key k (rev xs)) = m"
      "\<forall>x \<in> set pre. k x \<le> k m" "\<forall>x \<in> set post. k x < k m"
    using last_sort_key [of "rev xs" k] by blast
  have "sort_key k (rev xs) \<noteq> []" using assms by (metis length_sort length_0_conv rev_is_Nil_conv)
  then have "hd (sorted_reverse k xs) = m" using s(2) by (simp add: sorted_reverse_def hd_rev)
  moreover have "xs = rev post @ m # rev pre"
    using s(1) by (metis rev_append rev.simps(2) rev_rev_ident append.assoc append_Cons append_Nil)
  ultimately show ?thesis using s(3,4) by (metis set_rev)
qed

lemma length_sorted_reverse: "length (sorted_reverse k xs) = length xs"
  by (simp add: sorted_reverse_def)

lemma sorted_reverse_Nil_iff: "sorted_reverse k xs = [] \<longleftrightarrow> xs = []"
  using length_sorted_reverse [of k xs] by (metis length_0_conv)

lemma filter_eq_append_ConsD:
  "filter P xs = ys @ m # zs \<Longrightarrow>
   \<exists>us vs. xs = us @ m # vs \<and> filter P us = ys \<and> filter P vs = zs \<and> P m"
proof (induction xs arbitrary: ys)
  case Nil
  then show ?case by simp
next
  case (Cons x xs)
  show ?case
  proof (cases "P x")
    case False
    then obtain us vs where "xs = us @ m # vs" "filter P us = ys" "filter P vs = zs" "P m"
      using Cons by auto
    then have "x # xs = (x # us) @ m # vs \<and> filter P (x # us) = ys \<and> filter P vs = zs \<and> P m"
      using False by simp
    then show ?thesis by blast
  next
    case True
    show ?thesis
    proof (cases ys)
      case Nil
      then have "x # xs = [] @ m # xs \<and> filter P [] = ys \<and> filter P xs = zs \<and> P m"
        using Cons.prems True by simp
      then show ?thesis by blast
    next
      case (Cons y ys')
      then have "filter P xs = ys' @ m # zs" "x = y" using Cons.prems True by auto
      then obtain us vs where "xs = us @ m # vs" "filter P us = ys'" "filter P vs = zs" "P m"
        using Cons.IH by blast
      then have "x # xs = (x # us) @ m # vs \<and> filter P (x # us) = ys \<and> filter P vs = zs \<and> P m"
        using True Cons \<open>x = y\<close> by simp
      then show ?thesis by blast
    qed
  qed
qed

lemma subtitle_not_video: "is_subtitle n \<Longrightarrow> \<not> is_video n"
  by (auto simp: is_subtitle_def is_video_def)

lemma video_name_nonempty: "is_video n \<Longrightarrow> n \<noteq> []"
  by (auto simp: is_video_def parse_extension_def splitext_def)

lemma move_to_dir_append: "move_to_dir d (xs @ ys) = move_to_dir d xs @ move_to_dir d ys"
  by (simp add: move_to_dir_def)

lemma move_to_dir_rank_update:
  "move_to_dir d (map (\<lambda>sub. sub\<lparr>rank := r sub\<rparr>) subs) = move_to_dir d subs"
  by (simp add: move_to_dir_def)

lemma fst_sidecar_best_non_vobsub:
  "fst (sidecar_best_non_vobsub subs video_dir) = map (\<lambda>sub. sub\<lparr>rank := Some (rank_subtitle sub)\<rparr>) subs"
  by (simp add: sidecar_best_non_vobsub_def Let_def)

lemma move_to_dir_fst_sidecar_subtitle:
  "move_to_dir d (fst (sidecar_subtitle main_video subs)) = move_to_dir d subs"
  by (simp add: sidecar_subtitle_def Let_def fst_sidecar_best_non_vobsub move_to_dir_rank_update)

lemma mapper_eq:
  "map_single_video_download_with_subs t d =
     move_to_dir d (forward_main_videos t) @ move_to_dir d (forward_subtitles t)
     @ move_to_dir d (snd (sidecar_subtitle (forward_main_videos t) (forward_subtitles t)))"
  using move_to_dir_fst_sidecar_subtitle [of d "forward_main_videos t" "forward_subtitles t"]
  by (simp add: map_single_video_download_with_subs_def Let_def split_def move_to_dir_append)

lemma move_to_dir_forward_subtitles:
  "move_to_dir d (forward_subtitles t) =
     map (\<lambda>f. \<lparr>download_dir = downloadDir t, filename = file_name f, dest = d @ file_name f, rank = None\<rparr>)
         (filter (\<lambda>f. is_subtitle (file_name f)) (files t))"
  by (simp add: forward_subtitles_eq move_to_dir_def comp_def)

lemma set_sorted_reverse: "set (sorted_reverse k xs) = set xs"
  by (simp add: sorted_reverse_def)

lemma snd_sidecar_best_non_vobsub:
  "r \<in> set (snd (sidecar_best_non_vobsub subs video_dir)) \<Longrightarrow>
   \<exists>sub \<in> set subs. filename r = filename sub
      \<and> dest r = video_dir @ ''/'' @ basename (filename sub)"
proof -
  assume a: "r \<in> set (snd (sidecar_best_non_vobsub subs video_dir))"
  let ?subs = "map (\<lambda>sub. sub\<lparr>rank := Some (rank_subtitle sub)\<rparr>) subs"
  let ?ranked = "sorted_reverse the_rank ?subs"
  have ne: "?ranked \<noteq> []" using a by (auto simp: sidecar_best_non_vobsub_def Let_def split: if_splits)
  then have "hd ?ranked \<in> set ?subs" using set_sorted_reverse [of the_rank ?subs] hd_in_set by blast
  then obtain sub where sub: "sub \<in> set subs" "hd ?ranked = sub\<lparr>rank := Some (rank_subtitle sub)\<rparr>"
    by auto
  have "r = \<lparr>download_dir = download_dir (hd ?ranked), filename = filename (hd ?ranked),
             dest = video_dir @ ''/'' @ basename (filename (hd ?ranked)), rank = None\<rparr>"
    using a ne by (auto simp: sidecar_best_non_vobsub_def Let_def split: if_splits)
  then show ?thesis using sub by auto
qed

lemma snd_sidecar_subtitle:
  "r \<in> set (snd (sidecar_subtitle main_video subs)) \<Longrightarrow>
   \<exists>sub \<in> set subs. filename r = filename sub
      \<and> dest r = dirname (filename (hd main_video)) @ ''/'' @ basename (filename sub)"
  using snd_sidecar_best_non_vobsub [of r subs "dirname (filename (hd main_video))"]
  by (auto simp: sidecar_subtitle_def Let_def sidecar_vobsub_eq split: if_splits)

lemma forward_subtitles_filename:
  "sub \<in> set (forward_subtitles t) \<Longrightarrow> is_subtitle (filename sub) \<and> dest sub = filename sub"
  by (auto simp: forward_subtitles_eq)

lemma subtitle_name_nonempty: "is_subtitle n \<Longrightarrow> n \<noteq> []"
  by (auto simp: is_subtitle_def parse_extension_def splitext_def)

lemma forward_main_videos_cases:
  "forward_main_videos t = [] \<and> (\<forall>f \<in> set (files t). \<not> is_video (file_name f))
   \<or> (\<exists>pre v post. files t = pre @ v # post \<and> is_video (file_name v)
        \<and> (\<forall>f \<in> set pre. is_video (file_name f) \<longrightarrow> file_size f < file_size v)
        \<and> (\<forall>f \<in> set post. is_video (file_name f) \<longrightarrow> file_size f \<le> file_size v)
        \<and> forward_main_videos t =
            [\<lparr>download_dir = downloadDir t, filename = file_name v, dest = file_name v, rank = None\<rparr>])"
proof (cases "filter (\<lambda>f. is_video (file_name f)) (files t) = []")
  case True
  then have "forward_main_videos t = []"
    by (simp add: forward_main_videos_def Let_def sorted_reverse_def)
  moreover have "\<forall>f \<in> set (files t). \<not> is_video (file_name f)"
    using True by (simp add: filter_empty_conv)
  ultimately show ?thesis by blast
next
  case False
  let ?videos = "filter (\<lambda>f. is_video (file_name f)) (files t)"
  obtain pre m post where s: "?videos = pre @ m # post" "hd (sorted_reverse file_size ?videos) = m"
     "\<forall>x \<in> set pre. file_size x < file_size m" "\<forall>x \<in> set post. file_size x \<le> file_size m"
    using hd_sorted_reverse [OF False, of file_size] by blast
  obtain us vs where f: "files t = us @ m # vs" "filter (\<lambda>f. is_video (file_name f)) us = pre"
     "filter (\<lambda>f. is_video (file_name f)) vs = post" "is_video (file_name m)"
    using filter_eq_append_ConsD [OF s(1)] by blast
  have "\<forall>f \<in> set us. is_video (file_name f) \<longrightarrow> file_size f < file_size m"
    using f(2) s(3) by auto
  moreover have "\<forall>f \<in> set vs. is_video (file_name f) \<longrightarrow> file_size f \<le> file_size m"
    using f(3) s(4) by auto
  moreover have "forward_main_videos t =
      [\<lparr>download_dir = downloadDir t, filename = file_name m, dest = file_name m, rank = None\<rparr>]"
    using False s(2) by (simp add: forward_main_videos_def Let_def sorted_reverse_Nil_iff)
  ultimately show ?thesis using f(1,4) by blast
qed

lemma forward_main_videos_filename:
  "r \<in> set (forward_main_videos t) \<Longrightarrow> is_video (filename r) \<and> dest r = filename r"
  using forward_main_videos_cases [of t] by auto

section \<open>Facts about the walk of the pruner\<close>

lemma walk_up_files: "fs_files (walk_up root fs d) = fs_files fs"
  by (induction root fs d rule: walk_up.induct) (subst walk_up.simps, simp)

lemma walk_up_dirs_subset: "fs_dirs (walk_up root fs d) \<subseteq> fs_dirs fs"
proof (induction root fs d rule: walk_up.induct)
  case (1 root fs d)
  show ?case using 1 by (subst walk_up.simps) auto
qed

lemma is_empty_dir_mono:
  "is_empty_dir fs x \<Longrightarrow> fs_files fs' = fs_files fs \<Longrightarrow> fs_dirs fs' \<subseteq> fs_dirs fs \<Longrightarrow>
   is_empty_dir fs' x"
  by (auto simp: is_empty_dir_def)

lemma prefix_parent: "prefix x (parent d) \<Longrightarrow> prefix x d"
  by (metis parent_def prefix_order.trans prefixeq_butlast)

lemma prefix_root_parent: "prefix root d \<Longrightarrow> d \<noteq> root \<Longrightarrow> prefix root (parent d)"
  by (auto simp: prefix_def parent_def butlast_append)

lemma walk_up_removed:
  "x \<in> fs_dirs fs \<Longrightarrow> x \<notin> fs_dirs (walk_up root fs d) \<Longrightarrow>
   x \<noteq> root \<and> x \<noteq> [] \<and> prefix x d \<and> is_empty_dir (walk_up root fs d) x
   \<and> (prefix root d \<longrightarrow> strict_prefix root x)"
proof (induction root fs d rule: walk_up.induct)
  case (1 root fs d)
  show ?case
  proof (cases "d = root \<or> d = []")
    case True
    then have "walk_up root fs d = fs" by (subst walk_up.simps) simp
    then show ?thesis using "1.prems" by simp
  next
    case stop: False
    show ?thesis
    proof (cases "d \<in> fs_dirs fs")
      case False
      then have w: "walk_up root fs d = walk_up root fs (parent d)"
        using stop by (subst walk_up.simps) simp
      have "x \<noteq> root \<and> x \<noteq> [] \<and> prefix x (parent d) \<and> is_empty_dir (walk_up root fs (parent d)) x
            \<and> (prefix root (parent d) \<longrightarrow> strict_prefix root x)"
        using "1.IH"(1) [OF stop False "1.prems"(1)] "1.prems"(2) w by simp
      then show ?thesis using w prefix_parent [of x d] prefix_root_parent [of root d] stop by simp
    next
      case ex: True
      show ?thesis
      proof (cases "is_empty_dir fs d")
        case False
        then have "walk_up root fs d = fs" using stop ex by (subst walk_up.simps) simp
        then show ?thesis using "1.prems" by simp
      next
        case True
        let ?fs1 = "fs\<lparr>fs_dirs := fs_dirs fs - {d}\<rparr>"
        have w: "walk_up root fs d = walk_up root ?fs1 (parent d)"
          using stop ex True by (subst walk_up.simps) simp
        show ?thesis
        proof (cases "x = d")
          case True
          have "is_empty_dir ?fs1 d" using \<open>is_empty_dir fs d\<close> by (auto simp: is_empty_dir_def)
          then have "is_empty_dir (walk_up root ?fs1 (parent d)) d"
            using is_empty_dir_mono [of ?fs1 d "walk_up root ?fs1 (parent d)"]
              walk_up_files [of root ?fs1 "parent d"] walk_up_dirs_subset [of root ?fs1 "parent d"]
            by simp
          then show ?thesis using True stop w by (auto simp: strict_prefix_def)
        next
          case False
          then have "x \<in> fs_dirs ?fs1" using "1.prems"(1) by simp
          then have "x \<noteq> root \<and> x \<noteq> [] \<and> prefix x (parent d)
              \<and> is_empty_dir (walk_up root ?fs1 (parent d)) x
              \<and> (prefix root (parent d) \<longrightarrow> strict_prefix root x)"
            using "1.IH"(2) [OF stop _ \<open>is_empty_dir fs d\<close>] ex "1.prems"(2) w by simp
          then show ?thesis using w prefix_parent [of x d] prefix_root_parent [of root d] stop by simp
        qed
      qed
    qed
  qed
qed

lemma walk_up_unfold_stop: "d = root \<or> d = [] \<Longrightarrow> walk_up root fs d = fs"
  by (subst walk_up.simps) simp

lemma walk_up_unfold_gone:
  "\<not> (d = root \<or> d = []) \<Longrightarrow> d \<notin> fs_dirs fs \<Longrightarrow> walk_up root fs d = walk_up root fs (parent d)"
  by (subst walk_up.simps) simp

lemma walk_up_unfold_delete:
  "\<not> (d = root \<or> d = []) \<Longrightarrow> d \<in> fs_dirs fs \<Longrightarrow> is_empty_dir fs d \<Longrightarrow>
   walk_up root fs d = walk_up root (fs\<lparr>fs_dirs := fs_dirs fs - {d}\<rparr>) (parent d)"
  by (subst walk_up.simps) simp

lemma walk_up_unfold_nonempty:
  "\<not> (d = root \<or> d = []) \<Longrightarrow> d \<in> fs_dirs fs \<Longrightarrow> \<not> is_empty_dir fs d \<Longrightarrow> walk_up root fs d = fs"
  by (subst walk_up.simps) simp

lemma walk_up_keeps_nonempty:
  "x \<in> fs_dirs (walk_up root fs d) \<Longrightarrow> is_empty_dir (walk_up root fs d) x \<Longrightarrow>
   is_empty_dir fs x \<or> x = root \<or> x = []"
proof (induction root fs d rule: walk_up.induct)
  case (1 root fs d)
  show ?case
  proof (cases "d = root \<or> d = []")
    case True
    then show ?thesis using "1.prems" walk_up_unfold_stop [of d root fs] by simp
  next
    case stop: False
    show ?thesis
    proof (cases "d \<in> fs_dirs fs")
      case False
      then show ?thesis
        using "1.IH"(1) [OF stop False] "1.prems" walk_up_unfold_gone [OF stop False] by simp
    next
      case ex: True
      show ?thesis
      proof (cases "is_empty_dir fs d")
        case False
        then show ?thesis using "1.prems" walk_up_unfold_nonempty [OF stop ex False] by simp
      next
        case True
        let ?fs1 = "fs\<lparr>fs_dirs := fs_dirs fs - {d}\<rparr>"
        let ?fs' = "walk_up root ?fs1 (parent d)"
        have w: "walk_up root fs d = ?fs'" by (rule walk_up_unfold_delete [OF stop ex True])
        have xin: "x \<in> fs_dirs ?fs'" and xe: "is_empty_dir ?fs' x" using "1.prems" w by simp_all
        have IH: "is_empty_dir ?fs1 x \<or> x = root \<or> x = []"
          using "1.IH"(2) [OF stop _ True xin xe] ex by simp
        show ?thesis
        proof (cases "x = root \<or> x = [] \<or> is_empty_dir fs x")
          case True
          then show ?thesis by blast
        next
          case False
          then have e1: "is_empty_dir ?fs1 x" and ne: "\<not> is_empty_dir fs x" and xr: "x \<noteq> root" "x \<noteq> []"
            using IH by auto
          have "parent d = x" using e1 ne stop by (auto simp: is_empty_dir_def)
          then have w2: "?fs' = walk_up root ?fs1 x" by simp
          have x1: "x \<in> fs_dirs ?fs1" using xin walk_up_dirs_subset [of root ?fs1 "parent d"] by blast
          have "walk_up root ?fs1 x = walk_up root (?fs1\<lparr>fs_dirs := fs_dirs ?fs1 - {x}\<rparr>) (parent x)"
            using xr x1 e1 by (intro walk_up_unfold_delete) auto
          then have "x \<notin> fs_dirs ?fs'"
            using w2 walk_up_dirs_subset [of root "?fs1\<lparr>fs_dirs := fs_dirs ?fs1 - {x}\<rparr>" "parent x"]
            by auto
          then show ?thesis using xin by simp
        qed
      qed
    qed
  qed
qed

lemma dirs_closed_remove_empty:
  "dirs_closed fs \<Longrightarrow> is_empty_dir fs d \<Longrightarrow> dirs_closed (fs\<lparr>fs_dirs := fs_dirs fs - {d}\<rparr>)"
  by (auto simp: dirs_closed_def is_empty_dir_def)

lemma walk_up_dirs_closed: "dirs_closed fs \<Longrightarrow> dirs_closed (walk_up root fs d)"
proof (induction root fs d rule: walk_up.induct)
  case (1 root fs d)
  show ?case
  proof (cases "d = root \<or> d = []")
    case True
    then show ?thesis using "1.prems" walk_up_unfold_stop [of d root fs] by simp
  next
    case stop: False
    show ?thesis
    proof (cases "d \<in> fs_dirs fs")
      case False
      then show ?thesis
        using "1.IH"(1) [OF stop False] "1.prems" walk_up_unfold_gone [OF stop False] by simp
    next
      case ex: True
      show ?thesis
      proof (cases "is_empty_dir fs d")
        case False
        then show ?thesis using "1.prems" walk_up_unfold_nonempty [OF stop ex False] by simp
      next
        case True
        have "dirs_closed (fs\<lparr>fs_dirs := fs_dirs fs - {d}\<rparr>)"
          using "1.prems" True by (rule dirs_closed_remove_empty)
        then show ?thesis
          using "1.IH"(2) [OF stop _ True] ex walk_up_unfold_delete [OF stop ex True] by simp
      qed
    qed
  qed
qed

lemma prefix_parent_cases: "prefix x d \<Longrightarrow> x = d \<or> prefix x (parent d)"
  by (metis parent_def prefix_snoc append_butlast_last_id prefix_Nil)

lemma dirs_closed_prefix:
  assumes "dirs_closed fs"
  shows "d \<in> fs_dirs fs \<Longrightarrow> prefix x d \<Longrightarrow> x \<in> fs_dirs fs"
proof (induction d rule: rev_induct)
  case Nil
  then show ?case by simp
next
  case (snoc a d)
  show ?case
  proof (cases "x = d @ [a]")
    case True
    then show ?thesis using snoc.prems by simp
  next
    case False
    then have "prefix x d" using snoc.prems(2) by (simp add: prefix_snoc)
    moreover have "d \<in> fs_dirs fs"
      using assms snoc.prems(1) by (auto simp: dirs_closed_def parent_def)
    ultimately show ?thesis using snoc.IH by blast
  qed
qed

lemma dirs_closed_ancestor_nonempty:
  assumes "dirs_closed fs" "d \<in> fs_dirs fs" "strict_prefix x d"
  shows "\<not> is_empty_dir fs x"
proof -
  from assms(3) obtain zs where "d = x @ zs" "zs \<noteq> []" by (auto simp: strict_prefix_def prefix_def)
  then obtain a ys where d: "d = x @ a # ys" by (cases zs) auto
  have "prefix (x @ [a]) d" using d by (simp add: prefix_def)
  then have "x @ [a] \<in> fs_dirs fs" using dirs_closed_prefix [OF assms(1,2)] by blast
  moreover have "x @ [a] \<noteq> [] \<and> parent (x @ [a]) = x" by (simp add: parent_def)
  ultimately show ?thesis unfolding is_empty_dir_def by blast
qed

lemma walk_up_chain_nonempty:
  "dirs_closed fs \<Longrightarrow> x \<in> fs_dirs (walk_up root fs d) \<Longrightarrow> strict_prefix root x \<Longrightarrow> prefix x d \<Longrightarrow>
   \<not> is_empty_dir (walk_up root fs d) x"
proof (induction root fs d rule: walk_up.induct)
  case (1 root fs d)
  show ?case
  proof (cases "d = root \<or> d = []")
    case True
    then have False using "1.prems"(3,4) by (auto simp: strict_prefix_def)
    then show ?thesis ..
  next
    case stop: False
    show ?thesis
    proof (cases "d \<in> fs_dirs fs")
      case False
      have w: "walk_up root fs d = walk_up root fs (parent d)" by (rule walk_up_unfold_gone [OF stop False])
      have "x \<noteq> d" using "1.prems"(2) False walk_up_dirs_subset [of root fs d] by blast
      then have "prefix x (parent d)" using prefix_parent_cases [OF "1.prems"(4)] by simp
      then show ?thesis using "1.IH"(1) [OF stop False "1.prems"(1)] "1.prems"(2,3) w by simp
    next
      case ex: True
      show ?thesis
      proof (cases "is_empty_dir fs d")
        case False
        have w: "walk_up root fs d = fs" by (rule walk_up_unfold_nonempty [OF stop ex False])
        show ?thesis
        proof (cases "x = d")
          case True
          then show ?thesis using w False by simp
        next
          case False
          then have "strict_prefix x d" using "1.prems"(4) by (simp add: strict_prefix_def)
          then show ?thesis using dirs_closed_ancestor_nonempty [OF "1.prems"(1) ex] w by simp
        qed
      next
        case True
        let ?fs1 = "fs\<lparr>fs_dirs := fs_dirs fs - {d}\<rparr>"
        have w: "walk_up root fs d = walk_up root ?fs1 (parent d)"
          by (rule walk_up_unfold_delete [OF stop ex True])
        have c1: "dirs_closed ?fs1" using "1.prems"(1) True by (rule dirs_closed_remove_empty)
        have "x \<noteq> d" using "1.prems"(2) w walk_up_dirs_subset [of root ?fs1 "parent d"] by auto
        then have "prefix x (parent d)" using prefix_parent_cases [OF "1.prems"(4)] by simp
        then show ?thesis using "1.IH"(2) [OF stop _ True c1] ex "1.prems"(2,3) w by simp
      qed
    qed
  qed
qed

lemma fold_walk_files: "fs_files (fold (\<lambda>d fs. walk_up root fs d) ds fs) = fs_files fs"
  by (induction ds arbitrary: fs) (simp_all add: walk_up_files)

lemma fold_walk_dirs_subset: "fs_dirs (fold (\<lambda>d fs. walk_up root fs d) ds fs) \<subseteq> fs_dirs fs"
proof (induction ds arbitrary: fs)
  case Nil
  then show ?case by simp
next
  case (Cons d ds)
  show ?case using Cons [of "walk_up root fs d"] walk_up_dirs_subset [of root fs d] by auto
qed

lemma fold_walk_dirs_closed:
  "dirs_closed fs \<Longrightarrow> dirs_closed (fold (\<lambda>d fs. walk_up root fs d) ds fs)"
  by (induction ds arbitrary: fs) (simp_all add: walk_up_dirs_closed)

lemma fold_walk_removed:
  "x \<in> fs_dirs fs \<Longrightarrow> x \<notin> fs_dirs (fold (\<lambda>d fs. walk_up root fs d) ds fs) \<Longrightarrow>
   x \<noteq> root \<and> x \<noteq> []
   \<and> (\<exists>d \<in> set ds. prefix x d \<and> (prefix root d \<longrightarrow> strict_prefix root x))
   \<and> is_empty_dir (fold (\<lambda>d fs. walk_up root fs d) ds fs) x"
proof (induction ds arbitrary: fs)
  case Nil
  then show ?case by simp
next
  case (Cons d ds)
  let ?fs1 = "walk_up root fs d"
  let ?fs' = "fold (\<lambda>d fs. walk_up root fs d) ds ?fs1"
  show ?case
  proof (cases "x \<in> fs_dirs ?fs1")
    case True
    then show ?thesis using Cons.IH [of ?fs1] Cons.prems(2) by auto
  next
    case False
    then have r: "x \<noteq> root \<and> x \<noteq> [] \<and> prefix x d \<and> is_empty_dir ?fs1 x
        \<and> (prefix root d \<longrightarrow> strict_prefix root x)"
      using walk_up_removed [OF Cons.prems(1), of root d] by simp
    then have "is_empty_dir ?fs' x"
      using is_empty_dir_mono [of ?fs1 x ?fs'] fold_walk_files [of root ds ?fs1]
        fold_walk_dirs_subset [of root ds ?fs1] by simp
    then show ?thesis using r by auto
  qed
qed

lemma fold_walk_keeps_nonempty:
  "x \<in> fs_dirs (fold (\<lambda>d fs. walk_up root fs d) ds fs) \<Longrightarrow>
   is_empty_dir (fold (\<lambda>d fs. walk_up root fs d) ds fs) x \<Longrightarrow>
   is_empty_dir fs x \<or> x = root \<or> x = []"
proof (induction ds arbitrary: fs)
  case Nil
  then show ?case by simp
next
  case (Cons d ds)
  let ?fs1 = "walk_up root fs d"
  have "is_empty_dir ?fs1 x \<or> x = root \<or> x = []" using Cons.IH [of ?fs1] Cons.prems by simp
  moreover have "x \<in> fs_dirs ?fs1" using Cons.prems(1) fold_walk_dirs_subset [of root ds ?fs1] by auto
  ultimately show ?case using walk_up_keeps_nonempty [of x root fs d] by blast
qed

lemma fold_walk_chain_nonempty:
  "dirs_closed fs \<Longrightarrow> x \<in> fs_dirs (fold (\<lambda>d fs. walk_up root fs d) ds fs) \<Longrightarrow>
   strict_prefix root x \<Longrightarrow> d \<in> set ds \<Longrightarrow> prefix x d \<Longrightarrow>
   \<not> is_empty_dir (fold (\<lambda>d fs. walk_up root fs d) ds fs) x"
proof (induction ds arbitrary: fs)
  case Nil
  then show ?case by simp
next
  case (Cons d0 ds)
  let ?fs1 = "walk_up root fs d0"
  let ?fs' = "fold (\<lambda>d fs. walk_up root fs d) ds ?fs1"
  have c1: "dirs_closed ?fs1" using Cons.prems(1) by (rule walk_up_dirs_closed)
  have x': "x \<in> fs_dirs ?fs'" using Cons.prems(2) by simp
  show ?case
  proof (cases "d \<in> set ds")
    case True
    then show ?thesis using Cons.IH [OF c1 x' Cons.prems(3) _ Cons.prems(5)] by simp
  next
    case False
    then have "d = d0" using Cons.prems(4) by simp
    moreover have x1: "x \<in> fs_dirs ?fs1" using x' fold_walk_dirs_subset [of root ds ?fs1] by auto
    ultimately have "\<not> is_empty_dir ?fs1 x"
      using walk_up_chain_nonempty [OF Cons.prems(1) _ Cons.prems(3)] Cons.prems(5) by simp
    moreover have "x \<noteq> root \<and> x \<noteq> []" using Cons.prems(3) by (auto simp: strict_prefix_def)
    ultimately have "\<not> is_empty_dir ?fs' x"
      using fold_walk_keeps_nonempty [OF x'] by blast
    then show ?thesis by simp
  qed
qed

lemma prefix_parent_strict:
  assumes "x \<noteq> []" "prefix x (parent f)"
  shows "strict_prefix x f"
proof -
  obtain zs where zs: "butlast f = x @ zs" using assms(2) by (auto simp: prefix_def parent_def)
  then have "f \<noteq> []" using assms(1) by auto
  then have "f = x @ zs @ [last f]" using zs by (metis append_butlast_last_id append.assoc)
  then show ?thesis by (cases zs) (auto intro: strict_prefixI')
qed

lemma strict_prefix_parent: "strict_prefix x f \<Longrightarrow> prefix x (parent f)"
  by (auto simp: parent_def butlast_append elim!: strict_prefixE')

section \<open>The claims\<close>

subsection \<open>C1: the ranking order of the three example names\<close>

text \<open>
  Claim C1: the ranker is to give \<^verbatim>\<open>movie.english.srt\<close> rank 100, \<^verbatim>\<open>movie.english.sdh.srt\<close>
  rank 90 and \<^verbatim>\<open>movie.fr.srt\<close> rank 80, and the mapper is to emit one sidecar rule, for
  \<^verbatim>\<open>movie.english.srt\<close>. What the code computes: \<^verbatim>\<open>contains_any_word_ignoring_case\<close>
  uses \<^verbatim>\<open>match\<close>, which looks for the word at the start of the base name only, so all
  three names get rank 80; the stable sort then keeps the listed order, and with the
  French subtitle listed first the one sidecar rule is for \<^verbatim>\<open>movie.fr.srt\<close>.
\<close>

theorem rank_subtitle_anchored_examples:
  "rank_subtitle \<lparr>download_dir = ''/dl'', filename = ''movie.english.srt'',
                   dest = ''movie.english.srt'', rank = None\<rparr> = 80
   \<and> rank_subtitle \<lparr>download_dir = ''/dl'', filename = ''movie.english.sdh.srt'',
                   dest = ''movie.english.sdh.srt'', rank = None\<rparr> = 80
   \<and> rank_subtitle \<lparr>download_dir = ''/dl'', filename = ''movie.fr.srt'',
                   dest = ''movie.fr.srt'', rank = None\<rparr> = 80
   \<and> map_single_video_download_with_subs
        \<lparr>downloadDir = ''/dl'',
         files = [\<lparr>file_name = ''dir/movie.mkv'', file_size = 50\<rparr>,
                  \<lparr>file_name = ''movie.fr.srt'', file_size = 1\<rparr>,
                  \<lparr>file_name = ''movie.english.srt'', file_size = 1\<rparr>,
                  \<lparr>file_name = ''movie.english.sdh.srt'', file_size = 1\<rparr>]\<rparr> ''/lib/''
      = [\<lparr>download_dir = ''/dl'', filename = ''dir/movie.mkv'',
           dest = ''/lib/dir/movie.mkv'', rank = None\<rparr>,
         \<lparr>download_dir = ''/dl'', filename = ''movie.fr.srt'',
           dest = ''/lib/movie.fr.srt'', rank = None\<rparr>,
         \<lparr>download_dir = ''/dl'', filename = ''movie.english.srt'',
           dest = ''/lib/movie.english.srt'', rank = None\<rparr>,
         \<lparr>download_dir = ''/dl'', filename = ''movie.english.sdh.srt'',
           dest = ''/lib/movie.english.sdh.srt'', rank = None\<rparr>,
         \<lparr>download_dir = ''/dl'', filename = ''movie.fr.srt'',
           dest = ''/lib/dir/movie.fr.srt'', rank = None\<rparr>]"
  by code_simp

subsection \<open>C2: no video among the inputs\<close>

text \<open>
  Claim C2, as amended: when no file is classified as video, the mapper emits no main-video
  rule and no sidecar rule; it returns exactly the forwarding rules of the
  subtitle-classified files, in input order, each destination being the root followed by
  the original name. The rule set is empty exactly when no file is classified as subtitle
  either.
\<close>

theorem no_video_forwards_subtitles_only:
  assumes "\<forall>f \<in> set (files t). \<not> is_video (file_name f)"
  shows "forward_main_videos t = []
       \<and> snd (sidecar_subtitle (forward_main_videos t) (forward_subtitles t)) = []
       \<and> map_single_video_download_with_subs t dest_dir =
           map (\<lambda>f. \<lparr>download_dir = downloadDir t, filename = file_name f,
                      dest = dest_dir @ file_name f, rank = None\<rparr>)
               (filter (\<lambda>f. is_subtitle (file_name f)) (files t))
       \<and> (map_single_video_download_with_subs t dest_dir = []
            \<longleftrightarrow> (\<forall>f \<in> set (files t). \<not> is_subtitle (file_name f)))"
proof -
  have v: "forward_main_videos t = []"
    using forward_main_videos_cases [of t] assms by auto
  have sc: "snd (sidecar_subtitle (forward_main_videos t) (forward_subtitles t)) = []"
    by (simp add: v sidecar_subtitle_def)
  have m: "map_single_video_download_with_subs t dest_dir =
           map (\<lambda>f. \<lparr>download_dir = downloadDir t, filename = file_name f,
                      dest = dest_dir @ file_name f, rank = None\<rparr>)
               (filter (\<lambda>f. is_subtitle (file_name f)) (files t))"
    by (simp add: mapper_eq sc move_to_dir_forward_subtitles) (simp add: v move_to_dir_def)
  show ?thesis using v sc m by (simp add: filter_empty_conv)
qed

theorem no_video_forwards_subtitles_only_witness:
  "\<not> is_video ''a.srt'' \<and> \<not> is_video ''readme.txt''
   \<and> map_single_video_download_with_subs
        \<lparr>downloadDir = ''/dl'',
         files = [\<lparr>file_name = ''a.srt'', file_size = 1\<rparr>,
                  \<lparr>file_name = ''readme.txt'', file_size = 2\<rparr>]\<rparr> ''/lib/''
      = [\<lparr>download_dir = ''/dl'', filename = ''a.srt'', dest = ''/lib/a.srt'', rank = None\<rparr>]"
proof -
  have h: "\<forall>f \<in> set (files \<lparr>downloadDir = ''/dl'',
         files = [\<lparr>file_name = ''a.srt'', file_size = 1\<rparr>,
                  \<lparr>file_name = ''readme.txt'', file_size = 2\<rparr>]\<rparr>). \<not> is_video (file_name f)"
    by code_simp
  from no_video_forwards_subtitles_only [OF h, of "''/lib/''"]
  show ?thesis by code_simp
qed

text \<open>
  The claim as stated (an empty rule set whenever there is no video) fails on a torrent
  whose only file is a subtitle: the subtitle is still forwarded.
\<close>

theorem no_video_rule_set_counterexample:
  "\<not> is_video ''a.srt''
   \<and> map_single_video_download_with_subs
        \<lparr>downloadDir = ''/dl'', files = [\<lparr>file_name = ''a.srt'', file_size = 1\<rparr>]\<rparr> ''/lib/''
      = [\<lparr>download_dir = ''/dl'', filename = ''a.srt'', dest = ''/lib/a.srt'', rank = None\<rparr>]
   \<and> map_single_video_download_with_subs
        \<lparr>downloadDir = ''/dl'', files = [\<lparr>file_name = ''a.srt'', file_size = 1\<rparr>]\<rparr> ''/lib/''
      \<noteq> []"
  by code_simp

subsection \<open>C3: the extension of a filename\<close>

text \<open>
  Claim C3, as amended: the extension is the substring after the last \<^verbatim>\<open>.\<close> of the filename
  when that dot lies in the last path component (no \<^verbatim>\<open>/\<close> follows it) and some character
  other than a dot precedes it in that component; in every other case the extension is the
  empty string. In particular a filename containing no \<^verbatim>\<open>.\<close> has the empty extension (a
  file named \<^verbatim>\<open>video\<close> has extension \<^verbatim>\<open>''\<close>, not \<^verbatim>\<open>video\<close>), and such a file is classified
  as other: neither video nor subtitle.
\<close>

theorem parse_extension_characterisation:
  "(CHR ''.'' \<notin> set ext \<longrightarrow>
      parse_extension (stem @ ''.'' @ ext) =
        (if CHR ''/'' \<notin> set ext \<and> (\<exists>c \<in> set (basename stem). c \<noteq> CHR ''.'') then ext else []))
   \<and> (CHR ''.'' \<notin> set name \<longrightarrow>
        parse_extension name = [] \<and> \<not> is_video name \<and> \<not> is_subtitle name)"
  using parse_extension_split [of ext stem] parse_extension_no_dot [of name]
  by (auto simp: is_video_def is_subtitle_def)

theorem parse_extension_characterisation_witness:
  "parse_extension ''dir/a.b.srt'' = ''srt'' \<and> parse_extension ''.mkv'' = []
   \<and> parse_extension ''video'' = [] \<and> \<not> is_video ''video'' \<and> \<not> is_subtitle ''video''"
  using parse_extension_characterisation [of "''srt''" "''dir/a.b''" "''video''"]
    parse_extension_characterisation [of "''mkv''" "''''" "''video''"]
  by (simp add: basename_def)

text \<open>
  The claim as stated (the whole name is the extension when there is no dot) fails on the
  name of its own example.
\<close>

theorem parse_extension_whole_name_counterexample:
  "parse_extension ''video'' = [] \<and> parse_extension ''video'' \<noteq> ''video''"
  by code_simp

subsection \<open>C4: the main video\<close>

text \<open>
  Claim C4: when some file is classified as video, the mapper emits exactly one main-video
  rule. It is for a video \<open>v\<close> of maximal size, the first-listed one among those of maximal
  size (every video before it is strictly smaller, every video after it is no larger); the
  rule of \<^verbatim>\<open>forward_main_videos\<close> has the destination equal to the source name, the mapper
  puts the root in front of it, and every other rule of the result is for a file that is
  not a video.
\<close>

theorem main_video_is_first_largest:
  assumes "\<exists>f \<in> set (files t). is_video (file_name f)"
  shows "\<exists>pre v post rest. files t = pre @ v # post \<and> is_video (file_name v)
        \<and> (\<forall>f \<in> set pre. is_video (file_name f) \<longrightarrow> file_size f < file_size v)
        \<and> (\<forall>f \<in> set post. is_video (file_name f) \<longrightarrow> file_size f \<le> file_size v)
        \<and> forward_main_videos t =
            [\<lparr>download_dir = downloadDir t, filename = file_name v, dest = file_name v, rank = None\<rparr>]
        \<and> map_single_video_download_with_subs t dest_dir =
            \<lparr>download_dir = downloadDir t, filename = file_name v,
              dest = dest_dir @ file_name v, rank = None\<rparr> # rest
        \<and> (\<forall>r \<in> set rest. \<not> is_video (filename r))"
proof -
  obtain pre v post where s: "files t = pre @ v # post" "is_video (file_name v)"
      "\<forall>f \<in> set pre. is_video (file_name f) \<longrightarrow> file_size f < file_size v"
      "\<forall>f \<in> set post. is_video (file_name f) \<longrightarrow> file_size f \<le> file_size v"
      "forward_main_videos t =
         [\<lparr>download_dir = downloadDir t, filename = file_name v, dest = file_name v, rank = None\<rparr>]"
    using forward_main_videos_cases [of t] assms by blast
  let ?sidecar = "snd (sidecar_subtitle (forward_main_videos t) (forward_subtitles t))"
  let ?rest = "move_to_dir dest_dir (forward_subtitles t) @ move_to_dir dest_dir ?sidecar"
  have m: "map_single_video_download_with_subs t dest_dir =
            \<lparr>download_dir = downloadDir t, filename = file_name v,
              dest = dest_dir @ file_name v, rank = None\<rparr> # ?rest"
    by (simp add: mapper_eq s(5)) (simp add: move_to_dir_def)
  have "\<forall>r \<in> set ?rest. \<not> is_video (filename r)"
  proof
    fix r assume "r \<in> set ?rest"
    then consider sub where "sub \<in> set (forward_subtitles t)" "filename r = filename sub"
      | x where "x \<in> set ?sidecar" "filename r = filename x"
      by (auto simp: move_to_dir_def)
    then have "is_subtitle (filename r)"
    proof cases
      case 1
      then show ?thesis using forward_subtitles_filename by auto
    next
      case 2
      then obtain sub where "sub \<in> set (forward_subtitles t)" "filename x = filename sub"
        using snd_sidecar_subtitle by blast
      then show ?thesis using 2 forward_subtitles_filename by auto
    qed
    then show "\<not> is_video (filename r)" by (rule subtitle_not_video)
  qed
  then show ?thesis using s m by blast
qed

theorem main_video_is_first_largest_witness:
  "is_video ''b.avi''
   \<and> forward_main_videos
        \<lparr>downloadDir = ''/dl'',
         files = [\<lparr>file_name = ''a.mkv'', file_size = 10\<rparr>,
                  \<lparr>file_name = ''b.avi'', file_size = 50\<rparr>,
                  \<lparr>file_name = ''c.mp4'', file_size = 30\<rparr>,
                  \<lparr>file_name = ''d.mkv'', file_size = 50\<rparr>]\<rparr>
      = [\<lparr>download_dir = ''/dl'', filename = ''b.avi'', dest = ''b.avi'', rank = None\<rparr>]"
proof -
  have h: "\<exists>f \<in> set (files \<lparr>downloadDir = ''/dl'',
         files = [\<lparr>file_name = ''a.mkv'', file_size = 10\<rparr>,
                  \<lparr>file_name = ''b.avi'', file_size = 50\<rparr>,
                  \<lparr>file_name = ''c.mp4'', file_size = 30\<rparr>,
                  \<lparr>file_name = ''d.mkv'', file_size = 50\<rparr>]\<rparr>). is_video (file_name f)"
    by code_simp
  have c: "is_video ''b.avi''
   \<and> forward_main_videos
        \<lparr>downloadDir = ''/dl'',
         files = [\<lparr>file_name = ''a.mkv'', file_size = 10\<rparr>,
                  \<lparr>file_name = ''b.avi'', file_size = 50\<rparr>,
                  \<lparr>file_name = ''c.mp4'', file_size = 30\<rparr>,
                  \<lparr>file_name = ''d.mkv'', file_size = 50\<rparr>]\<rparr>
      = [\<lparr>download_dir = ''/dl'', filename = ''b.avi'', dest = ''b.avi'', rank = None\<rparr>]"
    by code_simp
  from main_video_is_first_largest [OF h, of "''/lib/''"] c
  show ?thesis by blast
qed

subsection \<open>C5: a VobSub pair\<close>

text \<open>
  Claim C5: when a main video was selected, no subtitle lies in the directory of the main
  video, and the subtitles contain a file of extension \<^verbatim>\<open>idx\<close> and a file of extension
  \<^verbatim>\<open>sub\<close>, the sidecar rules are, in order, one rule for each subtitle of extension \<^verbatim>\<open>idx\<close>
  or \<^verbatim>\<open>sub\<close>, with destination \<^verbatim>\<open>videoDir/<basename>\<close>, and no rule for any other
  subtitle; the mapper returns the main video, the forwarded subtitles and these rules
  under the root.
\<close>

theorem vobsub_pair_sidecars:
  assumes "forward_main_videos t = [main_video]"
    and "\<forall>sub \<in> set (forward_subtitles t). dirname (filename sub) \<noteq> dirname (filename main_video)"
    and "\<exists>sub \<in> set (forward_subtitles t). parse_extension (filename sub) = ''idx''"
    and "\<exists>sub \<in> set (forward_subtitles t). parse_extension (filename sub) = ''sub''"
  shows "snd (sidecar_subtitle (forward_main_videos t) (forward_subtitles t)) =
           map (\<lambda>sub. \<lparr>download_dir = download_dir sub, filename = filename sub,
                        dest = dirname (filename main_video) @ ''/'' @ basename (filename sub),
                        rank = None\<rparr>)
               (filter (\<lambda>sub. parse_extension (filename sub) \<in> {''idx'', ''sub''})
                       (forward_subtitles t))
       \<and> map_single_video_download_with_subs t dest_dir =
           move_to_dir dest_dir
             (main_video # forward_subtitles t @
              map (\<lambda>sub. \<lparr>download_dir = download_dir sub, filename = filename sub,
                        dest = dirname (filename main_video) @ ''/'' @ basename (filename sub),
                        rank = None\<rparr>)
               (filter (\<lambda>sub. parse_extension (filename sub) \<in> {''idx'', ''sub''})
                       (forward_subtitles t)))"
proof -
  have hs: "\<not> has_sidecar (forward_subtitles t) (dirname (filename main_video))"
    using assms(2) by (simp add: has_sidecar_iff)
  have hv: "has_vobsub (forward_subtitles t)"
    using assms(3,4) by (simp add: has_vobsub_iff)
  have sc: "sidecar_subtitle [main_video] (forward_subtitles t) =
      (forward_subtitles t, sidecar_vobsub (forward_subtitles t) (dirname (filename main_video)))"
    using hs hv by (simp add: sidecar_subtitle_def)
  show ?thesis
    by (simp add: mapper_eq sc sidecar_vobsub_eq assms(1) move_to_dir_append)
       (simp add: move_to_dir_def)
qed

theorem vobsub_pair_sidecars_witness:
  "map_single_video_download_with_subs
     \<lparr>downloadDir = ''/dl'',
      files = [\<lparr>file_name = ''dir/movie.mkv'', file_size = 50\<rparr>,
               \<lparr>file_name = ''subs/a.idx'', file_size = 1\<rparr>,
               \<lparr>file_name = ''subs/a.sub'', file_size = 1\<rparr>,
               \<lparr>file_name = ''subs/b.srt'', file_size = 1\<rparr>]\<rparr> ''/lib/''
   = [\<lparr>download_dir = ''/dl'', filename = ''dir/movie.mkv'',
        dest = ''/lib/dir/movie.mkv'', rank = None\<rparr>,
      \<lparr>download_dir = ''/dl'', filename = ''subs/a.idx'',
        dest = ''/lib/subs/a.idx'', rank = None\<rparr>,
      \<lparr>download_dir = ''/dl'', filename = ''subs/a.sub'',
        dest = ''/lib/subs/a.sub'', rank = None\<rparr>,
      \<lparr>download_dir = ''/dl'', filename = ''subs/b.srt'',
        dest = ''/lib/subs/b.srt'', rank = None\<rparr>,
      \<lparr>download_dir = ''/dl'', filename = ''subs/a.idx'',
        dest = ''/lib/dir/a.idx'', rank = None\<rparr>,
      \<lparr>download_dir = ''/dl'', filename = ''subs/a.sub'',
        dest = ''/lib/dir/a.sub'', rank = None\<rparr>]"
proof -
  let ?t = "\<lparr>downloadDir = ''/dl'',
      files = [\<lparr>file_name = ''dir/movie.mkv'', file_size = 50\<rparr>,
               \<lparr>file_name = ''subs/a.idx'', file_size = 1\<rparr>,
               \<lparr>file_name = ''subs/a.sub'', file_size = 1\<rparr>,
               \<lparr>file_name = ''subs/b.srt'', file_size = 1\<rparr>]\<rparr>"
  let ?main = "\<lparr>download_dir = ''/dl'', filename = ''dir/movie.mkv'',
                 dest = ''dir/movie.mkv'', rank = None\<rparr>"
  have h1: "forward_main_videos ?t = [?main]" by code_simp
  have h2: "\<forall>sub \<in> set (forward_subtitles ?t). dirname (filename sub) \<noteq> dirname (filename ?main)"
    by code_simp
  have h3: "\<exists>sub \<in> set (forward_subtitles ?t). parse_extension (filename sub) = ''idx''"
    by code_simp
  have h4: "\<exists>sub \<in> set (forward_subtitles ?t). parse_extension (filename sub) = ''sub''"
    by code_simp
  from vobsub_pair_sidecars [OF h1 h2 h3 h4, of "''/lib/''"]
  show ?thesis by code_simp
qed

subsection \<open>C6: a subtitle next to the main video\<close>

text \<open>
  Claim C6: when a main video was selected and some subtitle lies in the directory of the
  main video, the mapper emits no sidecar rule at all, whatever the names and places of the
  other subtitles: the result is the main video and the forwarded subtitles under the root.
\<close>

theorem colocated_subtitle_suppresses_sidecar:
  assumes "forward_main_videos t = [main_video]"
    and "\<exists>sub \<in> set (forward_subtitles t). dirname (filename sub) = dirname (filename main_video)"
  shows "snd (sidecar_subtitle (forward_main_videos t) (forward_subtitles t)) = []
       \<and> map_single_video_download_with_subs t dest_dir =
           move_to_dir dest_dir (main_video # forward_subtitles t)"
proof -
  have hs: "has_sidecar (forward_subtitles t) (dirname (filename main_video))"
    using assms(2) by (simp add: has_sidecar_iff)
  have sc: "sidecar_subtitle [main_video] (forward_subtitles t) = (forward_subtitles t, [])"
    using hs by (simp add: sidecar_subtitle_def)
  show ?thesis
    by (simp add: mapper_eq sc assms(1)) (simp add: move_to_dir_def)
qed

theorem colocated_subtitle_suppresses_sidecar_witness:
  "map_single_video_download_with_subs
     \<lparr>downloadDir = ''/dl'',
      files = [\<lparr>file_name = ''dir/movie.mkv'', file_size = 50\<rparr>,
               \<lparr>file_name = ''dir/a.srt'', file_size = 1\<rparr>,
               \<lparr>file_name = ''subs/english.srt'', file_size = 1\<rparr>]\<rparr> ''/lib/''
   = [\<lparr>download_dir = ''/dl'', filename = ''dir/movie.mkv'',
        dest = ''/lib/dir/movie.mkv'', rank = None\<rparr>,
      \<lparr>download_dir = ''/dl'', filename = ''dir/a.srt'',
        dest = ''/lib/dir/a.srt'', rank = None\<rparr>,
      \<lparr>download_dir = ''/dl'', filename = ''subs/english.srt'',
        dest = ''/lib/subs/english.srt'', rank = None\<rparr>]"
proof -
  let ?t = "\<lparr>downloadDir = ''/dl'',
      files = [\<lparr>file_name = ''dir/movie.mkv'', file_size = 50\<rparr>,
               \<lparr>file_name = ''dir/a.srt'', file_size = 1\<rparr>,
               \<lparr>file_name = ''subs/english.srt'', file_size = 1\<rparr>]\<rparr>"
  let ?main = "\<lparr>download_dir = ''/dl'', filename = ''dir/movie.mkv'',
                 dest = ''dir/movie.mkv'', rank = None\<rparr>"
  have h1: "forward_main_videos ?t = [?main]" by code_simp
  have h2: "\<exists>sub \<in> set (forward_subtitles ?t). dirname (filename sub) = dirname (filename ?main)"
    by code_simp
  from colocated_subtitle_suppresses_sidecar [OF h1 h2, of "''/lib/''"]
  show ?thesis by code_simp
qed

subsection \<open>C7: subtitles are always forwarded\<close>

text \<open>
  Claim C7: for every file list, every subtitle-classified file yields a forwarding rule
  whose destination is its original name, in input order, whether or not a main video
  exists and whatever the sidecar rules are; in the result of the mapper these rules (with
  the root in front of the destination) stand between the main-video rule and the sidecar
  rules, which come in addition to them.
\<close>

theorem subtitles_always_forwarded:
  "forward_subtitles t =
     map (\<lambda>f. \<lparr>download_dir = downloadDir t, filename = file_name f,
                dest = file_name f, rank = None\<rparr>)
         (filter (\<lambda>f. is_subtitle (file_name f)) (files t))
   \<and> map_single_video_download_with_subs t dest_dir =
       move_to_dir dest_dir (forward_main_videos t)
       @ map (\<lambda>f. \<lparr>download_dir = downloadDir t, filename = file_name f,
                    dest = dest_dir @ file_name f, rank = None\<rparr>)
             (filter (\<lambda>f. is_subtitle (file_name f)) (files t))
       @ move_to_dir dest_dir (snd (sidecar_subtitle (forward_main_videos t) (forward_subtitles t)))"
  using forward_subtitles_eq [of t] mapper_eq [of t dest_dir]
    move_to_dir_forward_subtitles [of dest_dir t] by simp

theorem subtitles_always_forwarded_witness:
  "forward_subtitles
     \<lparr>downloadDir = ''/dl'',
      files = [\<lparr>file_name = ''b.srt'', file_size = 1\<rparr>,
               \<lparr>file_name = ''notes.txt'', file_size = 1\<rparr>,
               \<lparr>file_name = ''a.vtt'', file_size = 1\<rparr>]\<rparr>
   = [\<lparr>download_dir = ''/dl'', filename = ''b.srt'', dest = ''b.srt'', rank = None\<rparr>,
      \<lparr>download_dir = ''/dl'', filename = ''a.vtt'', dest = ''a.vtt'', rank = None\<rparr>]"
  using subtitles_always_forwarded [of "\<lparr>downloadDir = ''/dl'',
      files = [\<lparr>file_name = ''b.srt'', file_size = 1\<rparr>,
               \<lparr>file_name = ''notes.txt'', file_size = 1\<rparr>,
               \<lparr>file_name = ''a.vtt'', file_size = 1\<rparr>]\<rparr>" "''/lib/''"]
  by code_simp

subsection \<open>C8: every destination starts with the root\<close>

text \<open>
  Claim C8: for every file list and every destination root, the destination of every rule
  that the mapper returns starts with the root, as a literal prefix, and is strictly longer
  than it.
\<close>

theorem destination_starts_with_root:
  assumes "r \<in> set (map_single_video_download_with_subs t dest_dir)"
  shows "strict_prefix dest_dir (dest r)"
proof -
  let ?sidecar = "snd (sidecar_subtitle (forward_main_videos t) (forward_subtitles t))"
  from assms obtain x where x: "dest r = dest_dir @ dest x"
     "x \<in> set (forward_main_videos t) \<or> x \<in> set (forward_subtitles t) \<or> x \<in> set ?sidecar"
    by (auto simp: mapper_eq move_to_dir_def)
  have "dest x \<noteq> []"
    using x(2) forward_main_videos_filename [of x t] video_name_nonempty [of "filename x"]
      forward_subtitles_filename [of x t] subtitle_name_nonempty [of "filename x"]
      snd_sidecar_subtitle [of x "forward_main_videos t" "forward_subtitles t"]
    by auto
  then show ?thesis using x(1) by (simp add: strict_prefix_def prefix_def)
qed

theorem destination_starts_with_root_witness:
  "\<lparr>download_dir = ''/dl'', filename = ''subs/a.srt'', dest = ''/lib/dir/a.srt'', rank = None\<rparr>
     \<in> set (map_single_video_download_with_subs
         \<lparr>downloadDir = ''/dl'',
          files = [\<lparr>file_name = ''dir/movie.mkv'', file_size = 50\<rparr>,
                   \<lparr>file_name = ''subs/a.srt'', file_size = 1\<rparr>]\<rparr> ''/lib/'')
   \<and> strict_prefix ''/lib/'' ''/lib/dir/a.srt''"
proof -
  have h: "\<lparr>download_dir = ''/dl'', filename = ''subs/a.srt'', dest = ''/lib/dir/a.srt'', rank = None\<rparr>
     \<in> set (map_single_video_download_with_subs
         \<lparr>downloadDir = ''/dl'',
          files = [\<lparr>file_name = ''dir/movie.mkv'', file_size = 50\<rparr>,
                   \<lparr>file_name = ''subs/a.srt'', file_size = 1\<rparr>]\<rparr> ''/lib/'')"
    by code_simp
  from destination_starts_with_root [OF h] h
  show ?thesis by simp
qed

subsection \<open>C9: the directories that the pruner deletes\<close>

text \<open>
  Claim C9: on a well-formed filesystem, with every deleted file under the root, the pruner
  deletes a directory if and only if the directory is a proper descendant of the root,
  lies on the way up from a deleted file, and is empty once the walk below it is done.
  Files are left as they are, nothing is created, the root is never deleted, a directory
  that is not above a deleted file is left untouched, and no directory is deleted while a
  directory below it remains (the walk stops at the first non-empty ancestor). In the
  example, the root \<^verbatim>\<open>R\<close> holds \<^verbatim>\<open>R/a/b/file1\<close> and \<^verbatim>\<open>R/a/external\<close>; after \<^verbatim>\<open>file1\<close> is
  deleted the pruner removes \<^verbatim>\<open>R/a/b\<close> and leaves \<^verbatim>\<open>R/a\<close> and \<^verbatim>\<open>R\<close>. Without
  \<^verbatim>\<open>R/a/external\<close> it removes \<^verbatim>\<open>R/a\<close> as well, and \<^verbatim>\<open>R\<close> stays although it is empty.
\<close>

theorem prune_removes_exactly_the_emptied_ancestors:
  assumes closed: "dirs_closed fs"
    and under: "\<forall>f \<in> set deletedFiles. strict_prefix root f"
  shows "fs_files (pruneEmptyDirectories root deletedFiles fs) = fs_files fs
    \<and> fs_dirs (pruneEmptyDirectories root deletedFiles fs) \<subseteq> fs_dirs fs
    \<and> (\<forall>d \<in> fs_dirs fs.
          d \<notin> fs_dirs (pruneEmptyDirectories root deletedFiles fs) \<longleftrightarrow>
            strict_prefix root d \<and> (\<exists>f \<in> set deletedFiles. strict_prefix d f)
            \<and> is_empty_dir (pruneEmptyDirectories root deletedFiles fs) d)
    \<and> (root \<in> fs_dirs fs \<longrightarrow> root \<in> fs_dirs (pruneEmptyDirectories root deletedFiles fs))
    \<and> dirs_closed (pruneEmptyDirectories root deletedFiles fs)"
proof -
  let ?ds = "remdups (map parent deletedFiles)"
  let ?fs' = "pruneEmptyDirectories root deletedFiles fs"
  have fs': "?fs' = fold (\<lambda>d fs. walk_up root fs d) ?ds fs"
    by (simp add: pruneEmptyDirectories_def)
  have files: "fs_files ?fs' = fs_files fs" unfolding fs' by (rule fold_walk_files)
  have dirs: "fs_dirs ?fs' \<subseteq> fs_dirs fs" unfolding fs' by (rule fold_walk_dirs_subset)
  have cl: "dirs_closed ?fs'" unfolding fs' using closed by (rule fold_walk_dirs_closed)
  have removed: "strict_prefix root d \<and> (\<exists>f \<in> set deletedFiles. strict_prefix d f)
       \<and> is_empty_dir ?fs' d" if d: "d \<in> fs_dirs fs" "d \<notin> fs_dirs ?fs'" for d
  proof -
    have r: "d \<noteq> root \<and> d \<noteq> []
       \<and> (\<exists>c \<in> set ?ds. prefix d c \<and> (prefix root c \<longrightarrow> strict_prefix root d))
       \<and> is_empty_dir ?fs' d"
      using fold_walk_removed [OF d(1), of root ?ds] d(2) unfolding fs' by blast
    then obtain f where f: "f \<in> set deletedFiles" "prefix d (parent f)"
        "prefix root (parent f) \<longrightarrow> strict_prefix root d"
      by auto
    have "prefix root (parent f)" using under f(1) strict_prefix_parent by blast
    moreover have "strict_prefix d f" using r f(2) prefix_parent_strict by blast
    ultimately show ?thesis using r f by blast
  qed
  have kept: "\<not> is_empty_dir ?fs' d"
    if d: "d \<in> fs_dirs ?fs'" "strict_prefix root d" "f \<in> set deletedFiles" "strict_prefix d f" for d f
  proof -
    have "parent f \<in> set ?ds" using d(3) by simp
    moreover have "prefix d (parent f)" using d(4) by (rule strict_prefix_parent)
    ultimately show ?thesis
      using fold_walk_chain_nonempty [OF closed _ d(2), of ?ds "parent f"] d(1) unfolding fs' by blast
  qed
  have iff: "\<forall>d \<in> fs_dirs fs. d \<notin> fs_dirs ?fs' \<longleftrightarrow>
            strict_prefix root d \<and> (\<exists>f \<in> set deletedFiles. strict_prefix d f) \<and> is_empty_dir ?fs' d"
    using removed kept by blast
  have "root \<in> fs_dirs fs \<longrightarrow> root \<in> fs_dirs ?fs'" using removed by blast
  then show ?thesis using files dirs iff cl by blast
qed

theorem prune_removes_exactly_the_emptied_ancestors_witness:
  "pruneEmptyDirectories [''R''] [[''R'', ''a'', ''b'', ''file1'']]
     \<lparr>fs_files = {[''R'', ''a'', ''external'']},
      fs_dirs = {[], [''R''], [''R'', ''a''], [''R'', ''a'', ''b'']}\<rparr>
   = \<lparr>fs_files = {[''R'', ''a'', ''external'']}, fs_dirs = {[], [''R''], [''R'', ''a'']}\<rparr>
   \<and> pruneEmptyDirectories [''R''] [[''R'', ''a'', ''b'', ''file1'']]
     \<lparr>fs_files = {}, fs_dirs = {[], [''R''], [''R'', ''a''], [''R'', ''a'', ''b'']}\<rparr>
   = \<lparr>fs_files = {}, fs_dirs = {[], [''R'']}\<rparr>"
proof -
  have closed: "dirs_closed \<lparr>fs_files = {[''R'', ''a'', ''external'']},
      fs_dirs = {[], [''R''], [''R'', ''a''], [''R'', ''a'', ''b'']}\<rparr>"
    by (simp add: dirs_closed_def parent_def)
  have under: "\<forall>f \<in> set [[''R'', ''a'', ''b'', ''file1'']]. strict_prefix [''R''] f"
    by simp
  from prune_removes_exactly_the_emptied_ancestors [OF closed under]
  show ?thesis by code_simp
qed

subsection \<open>C10: rank 90 is never returned\<close>

text \<open>
  Claim C10: for every subtitle, \<^verbatim>\<open>rank_subtitle\<close> returns 80 or 100 and never 90: both
  word tests are made at the start of the base name, and no name starts with a word of
  \<^verbatim>\<open>english\<close>, \<^verbatim>\<open>eng\<close>, \<^verbatim>\<open>en\<close> and with the word \<^verbatim>\<open>sdh\<close> at once.
\<close>

theorem rank_subtitle_never_90:
  "(rank_subtitle subtitle = 80 \<or> rank_subtitle subtitle = 100)
   \<and> rank_subtitle subtitle \<noteq> 90
   \<and> \<not> (is_english_subtitle name \<and> is_sdh_subtitle name)"
  using not_english_and_sdh [of "basename (filename subtitle)"] not_english_and_sdh [of name]
  by (auto simp: rank_subtitle_def Let_def)

theorem rank_subtitle_never_90_witness:
  "rank_subtitle \<lparr>download_dir = ''/dl'', filename = ''subs/English.sdh.srt'',
                   dest = ''subs/English.sdh.srt'', rank = None\<rparr> = 100"
  using rank_subtitle_never_90 [of "\<lparr>download_dir = ''/dl'', filename = ''subs/English.sdh.srt'',
                   dest = ''subs/English.sdh.srt'', rank = None\<rparr>" "''English.sdh.srt''"]
  by code_simp

end
